theory Spec2Isabelle
  imports Main "HOL-Library.Sublist" "HOL-Library.Word"
begin

section \<open>The C++ library operations that Utility.cpp calls\<close>

text \<open>
  A \<open>std::string\<close> is a sequence of bytes: \<^typ>\<open>string\<close>. \<open>std::size_t\<close> positions are
  natural numbers; every position the code computes is at most the length of a string it
  holds, so no position wraps around. Memory is unbounded in the model: no \<open>std::bad_alloc\<close>
  and no \<open>std::length_error\<close>.

  What the code can throw is a value of \<open>error\<close>: \<open>OutOfRange\<close> is the \<open>std::out_of_range\<close>
  of \<open>substr\<close> and \<open>basic_string::replace\<close>, \<open>RuntimeError msg\<close> the \<open>std::runtime_error\<close>
  with \<open>what() = msg\<close>, and \<open>Undefined\<close> marks a call that C leaves undefined (a \<open>memcpy\<close>
  beyond the end of its source or destination object).
\<close>

datatype error = OutOfRange | RuntimeError string | Undefined

text \<open>
  \<open>find_first d s\<close> is \<open>s.find(d)\<close>: the least position at which \<open>d\<close> occurs in \<open>s\<close>;
  \<open>None\<close> stands for \<open>std::string::npos\<close>. The empty string occurs at every position up to
  the end of \<open>s\<close>.
\<close>

fun find_first :: "string \<Rightarrow> string \<Rightarrow> nat option" where
  "find_first d [] = (if d = [] then Some 0 else None)"
| "find_first d (c # cs) =
     (if prefix d (c # cs) then Some 0 else map_option Suc (find_first d cs))"

text \<open>\<open>str_find s d pos\<close> is \<open>s.find(d, pos)\<close>: the search starts at position \<open>pos\<close>.\<close>

definition str_find :: "string \<Rightarrow> string \<Rightarrow> nat \<Rightarrow> nat option" where
  "str_find s d pos =
     (if length s < pos then None
      else map_option (\<lambda>i. pos + i) (find_first d (drop pos s)))"

text \<open>
  \<open>substr s pos (Some n)\<close> is \<open>s.substr(pos, n)\<close> and \<open>substr s pos None\<close> is \<open>s.substr(pos)\<close>;
  both throw \<open>std::out_of_range\<close> when \<open>pos\<close> is beyond the end of \<open>s\<close>.
\<close>

definition substr :: "string \<Rightarrow> nat \<Rightarrow> nat option \<Rightarrow> error + string" where
  "substr s pos n =
     (if length s < pos then Inl OutOfRange
      else Inr (case n of None \<Rightarrow> drop pos s | Some k \<Rightarrow> take k (drop pos s)))"

text \<open>\<open>str_replace s pos len str\<close> is \<open>s.replace(pos, len, str)\<close>.\<close>

definition str_replace :: "string \<Rightarrow> nat \<Rightarrow> nat \<Rightarrow> string \<Rightarrow> error + string" where
  "str_replace s pos len str =
     (if length s < pos then Inl OutOfRange
      else Inr (take pos s @ str @ drop (pos + len) s))"

text \<open>
  \<open>std::isgraph\<close> and \<open>::tolower\<close> are functions of the C library. They are modelled in the
  "C" locale, the locale of a program that never calls \<open>setlocale\<close>: the graphic characters
  are the bytes \<open>0x21\<close> to \<open>0x7E\<close>, and \<open>tolower\<close> maps \<open>A\<close> to \<open>Z\<close> to \<open>a\<close> to \<open>z\<close> and
  leaves every other byte unchanged. Where \<open>char\<close> is signed, a byte from \<open>0x80\<close> on reaches
  either function as a negative number, for which the C standard defines no result; the
  model classifies it by its byte value, as the tables of glibc do: not graphic, and
  unchanged by \<open>tolower\<close>.
\<close>

definition isgraph :: "char \<Rightarrow> bool" where
  "isgraph c = ((0x21::nat) \<le> of_char c \<and> of_char c \<le> (0x7E::nat))"

definition tolower :: "char \<Rightarrow> char" where
  "tolower c =
     (if (0x41::nat) \<le> of_char c \<and> of_char c \<le> (0x5A::nat)
      then char_of (of_char c + (0x20::nat)) else c)"


section \<open>TextOps: Utility.cpp\<close>

subsection \<open>explode\<close>

text \<open>
  The \<open>for\<close> loop of \<open>Utility::explode\<close>, with its state \<open>lpos\<close> and \<open>result\<close>. The loop
  condition assigns \<open>cpos = s.find(d, lpos)\<close> and tests it against \<open>npos\<close>; the body pushes
  \<open>s.substr(lpos, cpos - lpos)\<close>; the step sets \<open>lpos = cpos + d.length()\<close>. After the loop
  \<open>s.substr(lpos)\<close> is pushed. A loop that never ends has the value \<open>None\<close>.
\<close>

partial_function (option) explode_loop ::
  "string \<Rightarrow> string \<Rightarrow> nat \<Rightarrow> string list \<Rightarrow> (error + string list) option" where
  "explode_loop s d lpos result =
     (case str_find s d lpos of
        Some cpos \<Rightarrow>
          (case substr s lpos (Some (cpos - lpos)) of
             Inl e \<Rightarrow> Some (Inl e)
           | Inr piece \<Rightarrow> explode_loop s d (cpos + length d) (result @ [piece]))
      | None \<Rightarrow>
          (case substr s lpos None of
             Inl e \<Rightarrow> Some (Inl e)
           | Inr piece \<Rightarrow> Some (Inr (result @ [piece]))))"

declare explode_loop.simps [code]

definition explode :: "string \<Rightarrow> string \<Rightarrow> (error + string list) option" where
  "explode s d = explode_loop s d 0 []"

subsection \<open>implode\<close>

text \<open>
  The range-\<open>for\<close> loop of \<open>Utility::implode\<close>: the delimiter is appended before an element
  when the result built so far has positive length.
\<close>

fun implode_loop :: "string list \<Rightarrow> string \<Rightarrow> string \<Rightarrow> string" where
  "implode_loop [] d result = result"
| "implode_loop (s # v) d result =
     implode_loop v d ((if 0 < length result then result @ d else result) @ s)"

definition implode :: "string list \<Rightarrow> string \<Rightarrow> string" where
  "implode v d = implode_loop v d []"

subsection \<open>ltrim, rtrim, trim\<close>

text \<open>
  \<open>ltrim\<close> erases from the beginning of \<open>s\<close> up to the first graphic character, \<open>rtrim\<close>
  from just after the last graphic character (\<open>find_if\<close> on the reverse iterators, then
  \<open>base()\<close>) to the end. Both change the caller's string and return a reference to it: the
  model returns the new value of that string.
\<close>

definition ltrim :: "string \<Rightarrow> string" where
  "ltrim s = dropWhile (\<lambda>c. \<not> isgraph c) s"

definition rtrim :: "string \<Rightarrow> string" where
  "rtrim s = rev (dropWhile (\<lambda>c. \<not> isgraph c) (rev s))"

definition trim :: "string \<Rightarrow> string" where
  "trim s = ltrim (rtrim s)"

subsection \<open>strtolower\<close>

definition strtolower :: "string \<Rightarrow> string" where
  "strtolower s = map tolower s"

subsection \<open>repeat\<close>

text \<open>
  \<open>int\<close> is a 32-bit two's-complement word, compared as a signed number. The loop counter
  \<open>i\<close> starts at 0 and is incremented while \<open>i < n\<close>.
\<close>

lemma sint_succ: "i <s n \<Longrightarrow> sint (i + 1 :: 32 word) = sint i + 1"
proof -
  assume less: "i <s n"
  have "sint i < sint n"
    using less by (simp add: word_sless_alt)
  moreover have "sint n < 2 ^ 31"
    using sint_lt [of n] by simp
  moreover have "- (2 ^ 31) \<le> sint i"
    using sint_ge [of i] by simp
  ultimately have "signed_take_bit 31 (sint i + 1) = sint i + 1"
    by (intro signed_take_bit_int_eq_self) auto
  then show ?thesis
    by (simp add: sint_word_ariths)
qed

function repeat_loop :: "string \<Rightarrow> 32 word \<Rightarrow> 32 word \<Rightarrow> string \<Rightarrow> string" where
  "repeat_loop s n i result =
     (if i <s n then repeat_loop s n (i + 1) (result @ s) else result)"
  by pat_completeness auto
termination
proof (relation "measure (\<lambda>(s, n, i, r). nat (sint n - sint i))")
  show "wf (measure (\<lambda>(s, n, i, r). nat (sint n - sint i)))"
    by simp
next
  fix s :: string and n i :: "32 word" and result :: string
  assume less: "i <s n"
  then show "((s, n, i + 1, result @ s), (s, n, i, result))
      \<in> measure (\<lambda>(s, n, i, r). nat (sint n - sint i))"
    using sint_succ [OF less] by (simp add: word_sless_alt)
qed

definition repeat :: "string \<Rightarrow> 32 word \<Rightarrow> string" where
  "repeat s n = repeat_loop s n 0 []"

subsection \<open>replace\<close>

text \<open>
  The \<open>for\<close> loop of \<open>Utility::replace\<close>, with its state \<open>result\<close> and \<open>search_pos\<close>. Both
  the initialiser (\<open>search_pos = 0\<close>, \<open>offset = result.find(search)\<close>) and the step
  (\<open>search_pos = offset + replace.length()\<close>, \<open>offset = result.find(search, search_pos)\<close>)
  leave \<open>offset\<close> equal to \<open>result.find(search, search_pos)\<close>, so a round starts with that
  search; \<open>None\<close> is \<open>npos\<close> and ends the loop. The body replaces \<open>search.length()\<close>
  characters at \<open>offset\<close>. With an empty \<open>search\<close> the loop would never end; \<open>replace\<close> enters
  it only when \<open>search\<close> has positive length.
\<close>

partial_function (option) replace_loop ::
  "string \<Rightarrow> string \<Rightarrow> string \<Rightarrow> nat \<Rightarrow> (error + string) option" where
  "replace_loop search repl result search_pos =
     (case str_find result search search_pos of
        None \<Rightarrow> Some (Inr result)
      | Some offset \<Rightarrow>
          (case str_replace result offset (length search) repl of
             Inl e \<Rightarrow> Some (Inl e)
           | Inr result' \<Rightarrow>
               replace_loop search repl result' (offset + length repl)))"

declare replace_loop.simps [code]

definition replace :: "string \<Rightarrow> string \<Rightarrow> string \<Rightarrow> (error + string) option" where
  "replace search repl subject =
     (if 0 < length search
      then replace_loop search repl subject 0
      else Some (Inr subject))"


section \<open>AddressParser: Utility::parse_addr\<close>

text \<open>
  A \<open>struct addrinfo\<close> with the fields that \<open>parse_addr\<close> writes or reads. \<open>ai_addr\<close> is the
  object that the pointer of that name refers to, as its bytes; the list that \<open>ai_next\<close> links
  is an \<open>addrinfo list\<close>, and a null \<open>res\<close> is the empty list.
\<close>

type_synonym byte = "8 word"

record addrinfo =
  ai_flags :: int
  ai_family :: int
  ai_socktype :: int
  ai_protocol :: int
  ai_addrlen :: nat
  ai_addr :: "byte list"

text \<open>
  The constants and the layout that \<open>parse_addr\<close> takes from the system headers
  (\<open>sys/socket.h\<close>, \<open>netdb.h\<close>, \<open>netinet/in.h\<close>) are parameters: the address families, the
  flag \<open>AI_NUMERICHOST\<close>, \<open>sizeof (struct sockaddr_storage)\<close>, and where the family field
  (\<open>sa_family\<close>, \<open>ss_family\<close>) of a socket address lies and in which byte order it is read.
\<close>

record platform =
  AF_UNSPEC :: int
  AF_INET :: int
  AF_INET6 :: int
  AI_NUMERICHOST :: int
  sizeof_sockaddr_storage :: nat
  family_offset :: nat
  family_width :: nat
  big_endian :: bool

definition ss_family :: "platform \<Rightarrow> byte list \<Rightarrow> int" where
  "ss_family P a =
     (let field = take (family_width P) (drop (family_offset P) a)
      in foldl (\<lambda>acc b. 256 * acc + uint b) 0 (if big_endian P then field else rev field))"

text \<open>\<open>addr.c_str()\<close> as C reads it: the bytes before the first NUL.\<close>

definition c_str :: "string \<Rightarrow> string" where
  "c_str s = takeWhile (\<lambda>c. c \<noteq> CHR 0x00) s"

text \<open>
  \<open>memcpy dest src n\<close> gives the new contents of the object at \<open>dest\<close>. Copying more bytes
  than the source or the destination object holds is undefined in C.
\<close>

definition memcpy :: "byte list \<Rightarrow> byte list \<Rightarrow> nat \<Rightarrow> error + byte list" where
  "memcpy dest src n =
     (if length dest < n \<or> length src < n then Inl Undefined
      else Inr (take n src @ drop n dest))"

text \<open>\<open>hints = {}\<close>, then \<open>ai_family = AF_UNSPEC\<close> and \<open>ai_flags = AI_NUMERICHOST\<close>.\<close>

definition parse_addr_hints :: "platform \<Rightarrow> addrinfo" where
  "parse_addr_hints P =
     \<lparr>ai_flags = AI_NUMERICHOST P, ai_family = AF_UNSPEC P, ai_socktype = 0,
      ai_protocol = 0, ai_addrlen = 0, ai_addr = []\<rparr>"

text \<open>
  \<open>getaddrinfo\<close> is the resolution service, a parameter: from the node name and the hints it
  gives its return code and the list \<open>res\<close>. The disjunction of the source is evaluated from
  left to right, so \<open>res\<close> is looked at only after a return code of 0, and its first element
  only when it is not null. The result is the \<open>struct sockaddr_storage\<close>, as its bytes.
\<close>

definition parse_addr ::
  "platform \<Rightarrow> (string \<Rightarrow> addrinfo \<Rightarrow> int \<times> addrinfo list) \<Rightarrow> string \<Rightarrow> error + byte list" where
  "parse_addr P getaddrinfo addr =
     (let address = replicate (sizeof_sockaddr_storage P) (0 :: byte);
          hints = parse_addr_hints P
      in case getaddrinfo (c_str addr) hints of
           (rc, res) \<Rightarrow>
             if rc \<noteq> 0 then Inl (RuntimeError ''Could not parse the provided address.'')
             else case res of
               [] \<Rightarrow> Inl (RuntimeError ''Could not parse the provided address.'')
             | r # _ \<Rightarrow>
                 if ai_family r \<noteq> AF_INET P \<and> ai_family r \<noteq> AF_INET6 P
                 then Inl (RuntimeError ''Could not parse the provided address.'')
                 else memcpy address (ai_addr r) (ai_addrlen r))"

subsection \<open>An example platform and an example resolution service\<close>

text \<open>
  The constants of Linux on a little-endian machine, and a resolution service that knows two
  numeric literals, answers each with one candidate (a \<open>sockaddr_in\<close> of 16 bytes, a
  \<open>sockaddr_in6\<close> of 28 bytes) and rejects every other name with \<open>EAI_NONAME\<close>, which is -2.
\<close>

definition linux :: platform where
  "linux =
     \<lparr>AF_UNSPEC = 0, AF_INET = 2, AF_INET6 = 10, AI_NUMERICHOST = 4,
      sizeof_sockaddr_storage = 128, family_offset = 0, family_width = 2,
      big_endian = False\<rparr>"

definition numeric_only :: "string \<Rightarrow> addrinfo \<Rightarrow> int \<times> addrinfo list" where
  "numeric_only node hints =
     (if node = ''127.0.0.1'' then
        (0, [\<lparr>ai_flags = ai_flags hints, ai_family = 2, ai_socktype = 1, ai_protocol = 6,
              ai_addrlen = 16,
              ai_addr = [2, 0, 0, 0, 127, 0, 0, 1] @ replicate 8 0\<rparr>])
      else if node = ''::1'' then
        (0, [\<lparr>ai_flags = ai_flags hints, ai_family = 10, ai_socktype = 1, ai_protocol = 6,
              ai_addrlen = 28,
              ai_addr = [10, 0, 0, 0, 0, 0, 0, 0] @ replicate 15 0 @ [1, 0, 0, 0, 0]\<rparr>])
      else (- 2, []))"


section \<open>The operations as the specification words them\<close>

text \<open>
  \<open>join_spec parts d\<close>: the elements of \<open>parts\<close> in order, with \<open>d\<close> strictly between
  consecutive elements.
\<close>

fun join_spec :: "string list \<Rightarrow> string \<Rightarrow> string" where
  "join_spec [] d = []"
| "join_spec [p] d = p"
| "join_spec (p # q # ps) d = p @ d @ join_spec (q # ps) d"

text \<open>
  \<open>occurs_at d s i\<close>: \<open>d\<close> occurs in \<open>s\<close> at position \<open>i\<close>. \<open>uncut d p\<close>: no occurrence of
  \<open>d\<close> begins inside \<open>p\<close> when \<open>d\<close> follows \<open>p\<close>, so the \<open>d\<close> that follows is the leftmost one.
  \<open>cut_at_every d rs\<close>: \<open>rs\<close> are the pieces between the occurrences of \<open>d\<close> taken from left
  to right without overlap: every piece but the last is uncut, and \<open>d\<close> does not occur in
  the last one.
\<close>

definition occurs_at :: "string \<Rightarrow> string \<Rightarrow> nat \<Rightarrow> bool" where
  "occurs_at d s i = (i \<le> length s \<and> prefix d (drop i s))"

definition uncut :: "string \<Rightarrow> string \<Rightarrow> bool" where
  "uncut d p = list_all (\<lambda>i. \<not> occurs_at d (p @ d) i) [0..<length p]"

definition cut_at_every :: "string \<Rightarrow> string list \<Rightarrow> bool" where
  "cut_at_every d rs = (rs \<noteq> [] \<and> list_all (uncut d) (butlast rs) \<and> \<not> sublist d (last rs))"

text \<open>
  \<open>replaceAll_spec\<close>: scanning from left to right, an occurrence of \<open>search\<close> at the current
  position is replaced and the scan goes on after it in the subject, so that occurrences do
  not overlap and the inserted text is not scanned; an empty \<open>search\<close> replaces nothing.
\<close>

fun replaceAll_spec :: "string \<Rightarrow> string \<Rightarrow> string \<Rightarrow> string" where
  "replaceAll_spec search repl [] = []"
| "replaceAll_spec search repl (c # cs) =
     (if search \<noteq> [] \<and> prefix search (c # cs)
      then repl @ replaceAll_spec search repl (drop (length search) (c # cs))
      else c # replaceAll_spec search repl cs)"

text \<open>
  \<open>cut_positions d i s\<close>: the positions of the occurrences of \<open>d\<close> in \<open>s\<close> taken from left to
  right without overlap, where \<open>i\<close> is the position of the beginning of \<open>s\<close>: an occurrence at
  the current position is taken and the scan goes on after it, otherwise the scan goes on
  at the next position. \<open>after_last_cut d s\<close>: the end of \<open>s\<close> that follows the last of these
  occurrences, the whole of \<open>s\<close> when there is none.
\<close>

fun cut_positions :: "string \<Rightarrow> nat \<Rightarrow> string \<Rightarrow> nat list" where
  "cut_positions d i [] = []"
| "cut_positions d i (c # cs) =
     (if d \<noteq> [] \<and> prefix d (c # cs)
      then i # cut_positions d (i + length d) (drop (length d) (c # cs))
      else cut_positions d (Suc i) cs)"

definition after_last_cut :: "string \<Rightarrow> string \<Rightarrow> string" where
  "after_last_cut d s =
     (if cut_positions d 0 s = [] then s
      else drop (last (cut_positions d 0 s) + length d) s)"


section \<open>Properties of the standard-library operations\<close>

lemma find_first_None: "find_first d s = None \<Longrightarrow> i \<le> length s \<Longrightarrow> \<not> prefix d (drop i s)"
proof (induction s arbitrary: i)
  case Nil
  then show ?case by (auto split: if_splits)
next
  case (Cons c cs)
  then show ?case by (cases i) (auto split: if_splits)
qed

lemma find_first_Some:
  "find_first d s = Some i \<Longrightarrow>
     i \<le> length s \<and> prefix d (drop i s) \<and> (\<forall>j<i. \<not> prefix d (drop j s))"
proof (induction s arbitrary: i)
  case Nil
  then show ?case by (auto split: if_splits)
next
  case (Cons c cs)
  show ?case
  proof (cases "prefix d (c # cs)")
    case True
    with Cons.prems show ?thesis by simp
  next
    case False
    with Cons.prems obtain k where k: "find_first d cs = Some k" "i = Suc k" by auto
    from Cons.IH [OF k(1)] False k(2) show ?thesis
      by (auto simp: less_Suc_eq_0_disj)
  qed
qed

lemma find_first_split:
  assumes "find_first d s = Some i"
  shows "s = take i s @ d @ drop (i + length d) s" and "i + length d \<le> length s"
proof -
  from find_first_Some [OF assms] have le: "i \<le> length s" and pre: "prefix d (drop i s)" by auto
  from pre obtain r where r: "drop i s = d @ r" by (auto simp: prefix_def)
  have "drop (i + length d) s = drop (length d) (drop i s)" by (simp add: add.commute)
  also have "\<dots> = r" using r by simp
  finally have dr: "drop (i + length d) s = r" .
  have "s = take i s @ drop i s" by simp
  with r dr show "s = take i s @ d @ drop (i + length d) s" by simp
  have "length (drop i s) = length d + length r" using r by simp
  then show "i + length d \<le> length s" using le by simp
qed

lemma find_first_exists:
  "i \<le> length s \<Longrightarrow> prefix d (drop i s) \<Longrightarrow> \<exists>k\<le>i. find_first d s = Some k"
proof (induction s arbitrary: i)
  case Nil
  then show ?case by auto
next
  case (Cons c cs)
  show ?case
  proof (cases "prefix d (c # cs)")
    case True
    then show ?thesis by simp
  next
    case False
    with Cons.prems obtain j where j: "i = Suc j" by (cases i) auto
    with Cons.prems have "j \<le> length cs" "prefix d (drop j cs)" by auto
    from Cons.IH [OF this] obtain k where "k \<le> j" "find_first d cs = Some k" by auto
    with False j show ?thesis by auto
  qed
qed

lemma sublist_occurs: "sublist d s \<longleftrightarrow> (\<exists>i\<le>length s. prefix d (drop i s))"
proof
  assume "sublist d s"
  then obtain a b where "s = a @ d @ b" by (auto simp: sublist_def)
  then have "length a \<le> length s \<and> prefix d (drop (length a) s)" by simp
  then show "\<exists>i\<le>length s. prefix d (drop i s)" by blast
next
  assume "\<exists>i\<le>length s. prefix d (drop i s)"
  then obtain i r where "i \<le> length s" "drop i s = d @ r" by (auto simp: prefix_def)
  then have "s = take i s @ d @ r" by (metis append_take_drop_id)
  then show "sublist d s" unfolding sublist_def by blast
qed

lemma find_first_None_iff: "find_first d s = None \<longleftrightarrow> \<not> sublist d s"
proof
  assume "find_first d s = None"
  then show "\<not> sublist d s" by (auto simp: sublist_occurs dest: find_first_None)
next
  assume n: "\<not> sublist d s"
  show "find_first d s = None"
  proof (cases "find_first d s")
    case (Some i)
    from find_first_Some [OF Some] n show ?thesis by (auto simp: sublist_occurs)
  qed simp
qed

lemma str_find_None: "str_find s d pos = None \<Longrightarrow> pos \<le> length s \<Longrightarrow> \<not> sublist d (drop pos s)"
  by (simp add: str_find_def find_first_None_iff)

lemma str_find_Some:
  assumes "str_find s d lpos = Some cpos"
  shows "lpos \<le> length s" and "lpos \<le> cpos" and "cpos + length d \<le> length s"
    and "find_first d (drop lpos s) = Some (cpos - lpos)"
proof -
  from assms show le: "lpos \<le> length s" by (auto simp: str_find_def split: if_splits)
  from assms obtain i where i: "find_first d (drop lpos s) = Some i" "cpos = lpos + i"
    by (auto simp: str_find_def split: if_splits)
  from i show "lpos \<le> cpos" by simp
  from i show "find_first d (drop lpos s) = Some (cpos - lpos)" by simp
  from find_first_split(2) [OF i(1)] le i(2) show "cpos + length d \<le> length s" by simp
qed


section \<open>implode\<close>

lemma implode_loop_nonempty:
  "result \<noteq> [] \<Longrightarrow> implode_loop v d result = result @ concat (map (\<lambda>s. d @ s) v)"
  by (induction v arbitrary: result) auto

lemma join_spec_Cons: "join_spec (p # ps) d = p @ concat (map (\<lambda>s. d @ s) ps)"
  by (induction ps arbitrary: p) auto

lemma implode_eq_join:
  "implode v d = join_spec (dropWhile (\<lambda>s. s = []) v) d"
proof -
  have "implode_loop v d [] = join_spec (dropWhile (\<lambda>s. s = []) v) d"
  proof (induction v)
    case Nil
    show ?case by simp
  next
    case (Cons s v)
    show ?case
    proof (cases "s = []")
      case True
      with Cons show ?thesis by simp
    next
      case False
      then show ?thesis
        by (simp add: implode_loop_nonempty join_spec_Cons)
    qed
  qed
  then show ?thesis by (simp add: implode_def)
qed

lemma implode_join_spec: "v = [] \<or> hd v \<noteq> [] \<or> tl v = [] \<Longrightarrow> implode v d = join_spec v d"
  by (cases v) (auto simp: implode_eq_join)

text \<open>
  C3 (join): \<open>implode\<close> is to put the delimiter strictly between every two consecutive
  elements. It tests the length of the result built so far instead: while only empty
  elements have been appended, no delimiter is written. For the two elements \<open>""\<close> and \<open>"a"\<close>
  and the delimiter \<open>"-"\<close> the code returns \<open>"a"\<close>, where the join is \<open>"-a"\<close>.
\<close>

theorem implode_skips_delimiter:
  "implode ['''', ''a''] ''-'' = ''a'' \<and> join_spec ['''', ''a''] ''-'' = ''-a''"
  by (simp add: implode_def)


section \<open>explode\<close>

lemma join_spec_step: "rs \<noteq> [] \<Longrightarrow> join_spec (p # rs) d = p @ d @ join_spec rs d"
  by (cases rs) auto

lemma uncut_iff: "uncut d p \<longleftrightarrow> (\<forall>i<length p. \<not> prefix d (drop i (p @ d)))"
  by (auto simp: uncut_def occurs_at_def list_all_iff)

lemma uncut_take:
  assumes "find_first d t = Some i"
  shows "uncut d (take i t)"
proof -
  from find_first_Some [OF assms] have le: "i \<le> length t"
    and no: "\<forall>j<i. \<not> prefix d (drop j t)" by auto
  from find_first_split(1) [OF assms] obtain r where t: "t = take i t @ d @ r" by metis
  show ?thesis
    unfolding uncut_iff
  proof (intro allI impI)
    fix j assume j: "j < length (take i t)"
    then have ji: "j < i" by simp
    have "drop j t = drop j (take i t @ d) @ r"
      using t j by (metis append.assoc drop_append less_imp_le_nat diff_is_0_eq drop0)
    then have "prefix (drop j (take i t @ d)) (drop j t)" by (simp add: prefix_def)
    with no ji show "\<not> prefix d (drop j (take i t @ d))"
      using prefix_order.trans by blast
  qed
qed

lemma explode_loop_correct:
  assumes d: "d \<noteq> []"
  shows "lpos \<le> length s \<Longrightarrow>
    \<exists>rs. explode_loop s d lpos acc = Some (Inr (acc @ rs)) \<and>
         join_spec rs d = drop lpos s \<and> cut_at_every d rs"
proof (induction "length s - lpos" arbitrary: lpos acc rule: less_induct)
  case less
  let ?t = "drop lpos s"
  show ?case
  proof (cases "str_find s d lpos")
    case None
    from str_find_None [OF None less.prems] have "\<not> sublist d ?t" .
    with None less.prems show ?thesis
      by (subst explode_loop.simps) (simp add: substr_def cut_at_every_def)
  next
    case (Some cpos)
    note f = str_find_Some [OF Some]
    let ?i = "cpos - lpos"
    let ?lpos' = "cpos + length d"
    have smaller: "length s - ?lpos' < length s - lpos"
      using f d by (cases d) auto
    from less.hyps [OF smaller f(3), of "acc @ [take ?i ?t]"]
    obtain rs where rs: "explode_loop s d ?lpos' (acc @ [take ?i ?t]) = Some (Inr (acc @ [take ?i ?t] @ rs))"
      "join_spec rs d = drop ?lpos' s" "cut_at_every d rs" by auto
    have ne: "rs \<noteq> []" using rs(3) by (simp add: cut_at_every_def)
    have dr: "drop ?lpos' s = drop (?i + length d) ?t" using f by (simp add: add.commute)
    have 1: "explode_loop s d lpos acc = Some (Inr (acc @ (take ?i ?t # rs)))"
      using Some f(1) rs(1) by (subst explode_loop.simps) (simp add: substr_def)
    have 2: "join_spec (take ?i ?t # rs) d = ?t"
      using find_first_split(1) [OF f(4)] rs(2) dr by (simp add: join_spec_step [OF ne])
    have 3: "cut_at_every d (take ?i ?t # rs)"
      using rs(3) ne uncut_take [OF f(4)] by (simp add: cut_at_every_def)
    from 1 2 3 show ?thesis by blast
  qed
qed

lemma explode_correct:
  "d \<noteq> [] \<Longrightarrow> \<exists>rs. explode s d = Some (Inr rs) \<and> join_spec rs d = s \<and> cut_at_every d rs"
  using explode_loop_correct [of d 0 s "[]"] by (simp add: explode_def)

lemma join_spec_last:
  "rs \<noteq> [] \<Longrightarrow> rs = [join_spec rs d] \<or> (\<exists>pre. join_spec rs d = pre @ d @ last rs)"
proof (induction rs d rule: join_spec.induct)
  case (3 p q ps d)
  then have "q # ps = [join_spec (q # ps) d] \<or> (\<exists>pre. join_spec (q # ps) d = pre @ d @ last (q # ps))"
    by simp
  then show ?case
  proof
    assume "q # ps = [join_spec (q # ps) d]"
    then have "ps = []" by simp
    then have "join_spec (p # q # ps) d = p @ d @ last (p # q # ps)" by simp
    then show ?thesis by blast
  next
    assume "\<exists>pre. join_spec (q # ps) d = pre @ d @ last (q # ps)"
    then obtain pre where "join_spec (q # ps) d = pre @ d @ last (q # ps)" ..
    then have "join_spec (p # q # ps) d = (p @ d @ pre) @ d @ last (p # q # ps)" by simp
    then show ?thesis by blast
  qed
qed auto

lemma join_spec_single: "rs \<noteq> [] \<Longrightarrow> \<not> sublist d (join_spec rs d) \<Longrightarrow> rs = [join_spec rs d]"
proof (cases rs)
  case (Cons p ps)
  assume n: "\<not> sublist d (join_spec rs d)"
  show "rs = [join_spec rs d]"
  proof (cases ps)
    case Nil
    with Cons show ?thesis by simp
  next
    case (Cons q qs)
    with \<open>rs = p # ps\<close> have "join_spec rs d = p @ d @ join_spec (q # qs) d" by simp
    then have "sublist d (join_spec rs d)" unfolding sublist_def by blast
    with n show ?thesis by simp
  qed
qed simp

lemma prefix_append_long: "prefix d (x @ r) \<Longrightarrow> length d \<le> length x \<Longrightarrow> prefix d x"
  by (auto simp: prefix_append)

lemma uncut_find:
  assumes "uncut d p"
  shows "find_first d (p @ d @ r) = Some (length p)"
proof -
  have "length p \<le> length (p @ d @ r)" "prefix d (drop (length p) (p @ d @ r))" by simp_all
  from find_first_exists [OF this] obtain k
    where k: "k \<le> length p" "find_first d (p @ d @ r) = Some k" by auto
  have "k = length p"
  proof (rule ccontr)
    assume "k \<noteq> length p"
    with k(1) have lt: "k < length p" by simp
    from find_first_Some [OF k(2)] have "prefix d (drop k (p @ d @ r))" by simp
    moreover have "drop k (p @ d @ r) = drop k (p @ d) @ r" using lt by simp
    ultimately have "prefix d (drop k (p @ d) @ r)" by simp
    moreover have "length d \<le> length (drop k (p @ d))" using lt by simp
    ultimately have "prefix d (drop k (p @ d))" by (rule prefix_append_long)
    with assms lt show False by (simp add: uncut_iff)
  qed
  with k(2) show ?thesis by simp
qed

lemma explode_loop_join:
  assumes d: "d \<noteq> []"
  shows "cut_at_every d ps \<Longrightarrow>
    explode_loop (pre @ join_spec ps d) d (length pre) acc = Some (Inr (acc @ ps))"
proof (induction ps arbitrary: pre acc)
  case Nil
  then show ?case by (simp add: cut_at_every_def)
next
  case (Cons p ps)
  show ?case
  proof (cases ps)
    case Nil
    with Cons.prems have "find_first d p = None"
      by (simp add: cut_at_every_def find_first_None_iff)
    with Nil show ?thesis
      by (subst explode_loop.simps) (simp add: str_find_def substr_def)
  next
    case (Cons q qs)
    let ?J = "join_spec ps d"
    from Cons.prems Cons have u: "uncut d p" and c: "cut_at_every d ps"
      by (simp_all add: cut_at_every_def)
    have j: "join_spec (p # ps) d = p @ d @ ?J" using Cons by simp
    have f: "str_find (pre @ p @ d @ ?J) d (length pre) = Some (length pre + length p)"
      by (simp add: str_find_def uncut_find [OF u])
    have ih: "explode_loop ((pre @ p @ d) @ ?J) d (length (pre @ p @ d)) (acc @ [p])
        = Some (Inr ((acc @ [p]) @ ps))"
      by (rule Cons.IH [OF c])
    show ?thesis
      unfolding j
      by (subst explode_loop.simps) (use f ih in \<open>simp add: substr_def add.assoc\<close>)
  qed
qed

text \<open>With an empty delimiter the loop of \<open>explode\<close> does not return.\<close>

lemma explode_loop_empty_delimiter:
  assumes "explode_loop s d lpos acc = Some y"
  shows "d = [] \<longrightarrow> length s < lpos"
proof (rule explode_loop.raw_induct
    [where P = "\<lambda>s d lpos (result :: string list) (y :: error + string list).
       d = [] \<longrightarrow> length s < lpos", OF _ assms])
  fix f :: "string \<Rightarrow> string \<Rightarrow> nat \<Rightarrow> string list \<Rightarrow> (error + string list) option"
    and s d lpos result y
  assume ih: "\<And>s d lpos result y. f s d lpos result = Some y \<Longrightarrow> d = [] \<longrightarrow> length s < lpos"
    and step: "(case str_find s d lpos of
        None \<Rightarrow> (case substr s lpos None of Inl e \<Rightarrow> Some (Inl e)
                 | Inr piece \<Rightarrow> Some (Inr (result @ [piece])))
      | Some cpos \<Rightarrow> (case substr s lpos (Some (cpos - lpos)) of Inl e \<Rightarrow> Some (Inl e)
                 | Inr piece \<Rightarrow> f s d (cpos + length d) (result @ [piece]))) = Some y"
  show "d = [] \<longrightarrow> length s < lpos"
  proof (intro impI, rule ccontr)
    assume d: "d = []" and "\<not> length s < lpos"
    then have le: "lpos \<le> length s" by simp
    then have "str_find s [] lpos = Some lpos"
      by (cases "drop lpos s") (auto simp: str_find_def)
    with step d le have "f s d lpos (result @ [take 0 (drop lpos s)]) = Some y"
      by (simp add: substr_def)
    from ih [OF this] d le show False by simp
  qed
qed

lemma explode_empty_delimiter: "explode s [] = None"
proof (cases "explode s []")
  case (Some y)
  then show ?thesis
    using explode_loop_empty_delimiter [of s "[]" 0 "[]" y] by (simp add: explode_def)
qed simp

text \<open>
  C5 (split): for every string \<open>s\<close> and every non-empty delimiter \<open>d\<close>, \<open>explode\<close> returns,
  without throwing, the pieces of \<open>s\<close> in order: joined with \<open>d\<close> between them they give \<open>s\<close>
  back, and they are cut at every occurrence of \<open>d\<close> met from left to right without overlap
  (no occurrence begins inside a piece that \<open>d\<close> follows, and none lies in the last piece).
  When \<open>d\<close> does not occur in \<open>s\<close> the result is \<open>[s]\<close>; when \<open>s\<close> is empty it is one empty
  string. In particular \<open>"a,,b"\<close> split at \<open>","\<close> is \<open>["a", "", "b"]\<close>, and \<open>"abc"\<close> split
  at \<open>","\<close> is \<open>["abc"]\<close>.
\<close>

theorem explode_cuts_at_every_occurrence:
  assumes "d \<noteq> []"
  shows "(\<exists>rs. explode s d = Some (Inr rs) \<and> join_spec rs d = s \<and> cut_at_every d rs \<and>
            (\<not> sublist d s \<longrightarrow> rs = [s]) \<and> (s = [] \<longrightarrow> rs = [[]])) \<and>
         explode ''a,,b'' '','' = Some (Inr [''a'', '''', ''b'']) \<and>
         explode ''abc'' '','' = Some (Inr [''abc''])"
proof (intro conjI)
  from explode_correct [OF assms, of s] obtain rs
    where rs: "explode s d = Some (Inr rs)" "join_spec rs d = s" "cut_at_every d rs" by blast
  have ne: "rs \<noteq> []" using rs(3) by (simp add: cut_at_every_def)
  have 1: "\<not> sublist d s \<longrightarrow> rs = [s]"
    using join_spec_single [OF ne, of d] rs(2) by simp
  have "\<not> sublist d []" using assms by simp
  with 1 have 2: "s = [] \<longrightarrow> rs = [[]]" by blast
  from rs 1 2 show "\<exists>rs. explode s d = Some (Inr rs) \<and> join_spec rs d = s \<and> cut_at_every d rs \<and>
            (\<not> sublist d s \<longrightarrow> rs = [s]) \<and> (s = [] \<longrightarrow> rs = [[]])" by blast
  show "explode ''a,,b'' '','' = Some (Inr [''a'', '''', ''b''])" by code_simp
  show "explode ''abc'' '','' = Some (Inr [''abc''])" by code_simp
qed

theorem explode_cuts_at_every_occurrence_witness:
  "'','' \<noteq> [] \<and>
   explode ''a,b,,c'' '','' = Some (Inr [''a'', ''b'', '''', ''c'']) \<and>
   join_spec [''a'', ''b'', '''', ''c''] '','' = ''a,b,,c'' \<and>
   cut_at_every '','' [''a'', ''b'', '''', ''c'']"
proof -
  have h: "'','' \<noteq> []"
    by simp
  have e: "explode ''a,b,,c'' '','' = Some (Inr [''a'', ''b'', '''', ''c''])"
    by code_simp
  from explode_cuts_at_every_occurrence [OF h, of "''a,b,,c''"] obtain rs
    where "explode ''a,b,,c'' '','' = Some (Inr rs)" "join_spec rs '','' = ''a,b,,c''"
      "cut_at_every '','' rs"
    by blast
  with h e show ?thesis
    by simp
qed

text \<open>The last element that \<open>explode\<close> returns, by the positions of the cuts.\<close>

lemma cut_positions_none: "find_first d t = None \<Longrightarrow> cut_positions d i t = []"
proof (induction t arbitrary: i)
  case Nil
  show ?case by simp
next
  case (Cons c cs)
  then show ?case by (auto split: if_splits)
qed

lemma cut_positions_found:
  "d \<noteq> [] \<Longrightarrow> find_first d t = Some k \<Longrightarrow>
     cut_positions d i t = (i + k) # cut_positions d (i + k + length d) (drop (k + length d) t)"
proof (induction t arbitrary: i k)
  case Nil
  then show ?case by simp
next
  case (Cons c cs)
  show ?case
  proof (cases "prefix d (c # cs)")
    case True
    with Cons.prems show ?thesis by simp
  next
    case False
    with Cons.prems obtain j where j: "find_first d cs = Some j" "k = Suc j" by auto
    from Cons.IH [OF Cons.prems(1) j(1), of "Suc i"] False j(2) show ?thesis by simp
  qed
qed

lemma explode_loop_last:
  assumes d: "d \<noteq> []"
  shows "lpos \<le> length s \<Longrightarrow>
    \<exists>rs. explode_loop s d lpos acc = Some (Inr (acc @ rs)) \<and> rs \<noteq> [] \<and>
         last rs = (if cut_positions d lpos (drop lpos s) = [] then drop lpos s
                    else drop (last (cut_positions d lpos (drop lpos s)) + length d) s)"
proof (induction "length s - lpos" arbitrary: lpos acc rule: less_induct)
  case less
  let ?t = "drop lpos s"
  show ?case
  proof (cases "str_find s d lpos")
    case None
    with less.prems have "find_first d ?t = None" by (simp add: str_find_def)
    then have "cut_positions d lpos ?t = []" by (rule cut_positions_none)
    with None less.prems show ?thesis
      by (subst explode_loop.simps) (simp add: substr_def)
  next
    case (Some cpos)
    note f = str_find_Some [OF Some]
    let ?i = "cpos - lpos"
    let ?lpos' = "cpos + length d"
    have smaller: "length s - ?lpos' < length s - lpos"
      using f d by (cases d) auto
    from less.hyps [OF smaller f(3), of "acc @ [take ?i ?t]"]
    obtain rs where rs: "explode_loop s d ?lpos' (acc @ [take ?i ?t]) = Some (Inr (acc @ [take ?i ?t] @ rs))"
      "rs \<noteq> []"
      "last rs = (if cut_positions d ?lpos' (drop ?lpos' s) = [] then drop ?lpos' s
                  else drop (last (cut_positions d ?lpos' (drop ?lpos' s)) + length d) s)"
      by auto
    have dr: "drop (?i + length d) ?t = drop ?lpos' s" using f by (simp add: add.commute)
    have cp: "cut_positions d lpos ?t = cpos # cut_positions d ?lpos' (drop ?lpos' s)"
      using cut_positions_found [OF d f(4), of lpos] f(2) dr by simp
    have 1: "explode_loop s d lpos acc = Some (Inr (acc @ (take ?i ?t # rs)))"
      using Some f(1) rs(1) by (subst explode_loop.simps) (simp add: substr_def)
    have 2: "last (take ?i ?t # rs) =
        (if cut_positions d lpos ?t = [] then ?t
         else drop (last (cut_positions d lpos ?t) + length d) s)"
      using rs(2,3) cp by simp
    from 1 2 show ?thesis by blast
  qed
qed

lemma explode_last: 
  "d \<noteq> [] \<Longrightarrow> \<exists>rs. explode s d = Some (Inr rs) \<and> rs \<noteq> [] \<and> last rs = after_last_cut d s"
proof -
  assume d: "d \<noteq> []"
  have "0 \<le> length s" by simp
  from explode_loop_last [OF d this, of "[]"] obtain rs
    where rs: "explode_loop s d 0 [] = Some (Inr rs)" "rs \<noteq> []"
      "last rs = (if cut_positions d 0 (drop 0 s) = [] then drop 0 s
                  else drop (last (cut_positions d 0 (drop 0 s)) + length d) s)"
    by auto
  from rs(3) have "last rs = after_last_cut d s"
    by (simp add: after_last_cut_def)
  with rs(1,2) show ?thesis
    by (auto simp: explode_def)
qed

text \<open>
  C8 (last piece), as stated: the last element is the suffix of \<open>s\<close> that follows the final
  occurrence of the delimiter. Where occurrences overlap, the final occurrence need not be
  one at which \<open>s\<close> is cut: in \<open>"aaa"\<close> the delimiter \<open>"aa"\<close> occurs at the positions 0 and
  1 and nowhere else; \<open>explode\<close> cuts at 0 and returns \<open>["", "a"]\<close>, whose last element is
  \<open>"a"\<close>, where the suffix that follows the occurrence at 1 is empty.

  C8, amended: for every string \<open>s\<close> and every non-empty delimiter \<open>d\<close>, \<open>explode\<close> returns
  at least one element, and the last element is the end of \<open>s\<close> that follows the last of the
  occurrences of \<open>d\<close> taken from left to right without overlap, the whole of \<open>s\<close> when \<open>d\<close>
  does not occur. Moreover either it is the only element and is \<open>s\<close>, or \<open>s\<close> ends with \<open>d\<close>
  followed by it; and \<open>d\<close> does not occur in it.
\<close>

theorem explode_last_piece:
  assumes "d \<noteq> []"
  shows "\<exists>rs. explode s d = Some (Inr rs) \<and> rs \<noteq> [] \<and>
           last rs = after_last_cut d s \<and>
           (rs = [s] \<or> (\<exists>pre. s = pre @ d @ last rs)) \<and>
           \<not> sublist d (last rs) \<and> (\<not> sublist d s \<longrightarrow> last rs = s)"
proof -
  from explode_correct [OF assms, of s] obtain rs
    where rs: "explode s d = Some (Inr rs)" "join_spec rs d = s" "cut_at_every d rs" by blast
  from explode_last [OF assms, of s] rs(1) have al: "last rs = after_last_cut d s" by auto
  have ne: "rs \<noteq> []" and nl: "\<not> sublist d (last rs)"
    using rs(3) by (simp_all add: cut_at_every_def)
  have 1: "rs = [s] \<or> (\<exists>pre. s = pre @ d @ last rs)"
    using join_spec_last [OF ne, of d] rs(2) by simp
  have 2: "\<not> sublist d s \<longrightarrow> last rs = s"
    using join_spec_single [OF ne, of d] rs(2) by (metis last.simps)
  from rs(1) ne al 1 nl 2 show ?thesis by blast
qed

theorem explode_last_piece_witness:
  "''aa'' \<noteq> [] \<and>
   explode ''aaa'' ''aa'' = Some (Inr ['''', ''a'']) \<and>
   cut_positions ''aa'' 0 ''aaa'' = [0] \<and>
   after_last_cut ''aa'' ''aaa'' = ''a'' \<and>
   last ['''', ''a''] = after_last_cut ''aa'' ''aaa'' \<and>
   \<not> sublist ''aa'' (last ['''', ''a''])"
proof -
  have h: "''aa'' \<noteq> []"
    by simp
  have e: "explode ''aaa'' ''aa'' = Some (Inr ['''', ''a''])"
    by code_simp
  have cp: "cut_positions ''aa'' 0 ''aaa'' = [0]"
    by code_simp
  have al: "after_last_cut ''aa'' ''aaa'' = ''a''"
    by code_simp
  from explode_last_piece [OF h, of "''aaa''"] obtain rs
    where rs: "explode ''aaa'' ''aa'' = Some (Inr rs)" "last rs = after_last_cut ''aa'' ''aaa''"
      "\<not> sublist ''aa'' (last rs)"
    by blast
  from rs(1) e have eq: "rs = ['''', ''a'']"
    by simp
  from rs(2) eq have 1: "last ['''', ''a''] = after_last_cut ''aa'' ''aaa''"
    by simp
  from rs(3) eq have 2: "\<not> sublist ''aa'' (last ['''', ''a''])"
    by simp
  from h e cp al 1 2 show ?thesis
    by blast
qed

theorem explode_last_piece_counterexample:
  "explode ''aaa'' ''aa'' = Some (Inr ['''', ''a'']) \<and>
   occurs_at ''aa'' ''aaa'' 1 \<and>
   \<not> occurs_at ''aa'' ''aaa'' 2 \<and>
   \<not> occurs_at ''aa'' ''aaa'' 3 \<and>
   drop (1 + length ''aa'') ''aaa'' = '''' \<and>
   last ['''', ''a''] \<noteq> drop (1 + length ''aa'') ''aaa''"
  by code_simp


section \<open>explode after implode\<close>

text \<open>
  C4 (round trip), as stated: splitting the join of \<open>parts\<close> gives \<open>parts\<close> back whenever
  \<open>d\<close> is non-empty and no element of \<open>parts\<close> contains \<open>d\<close>. This fails for the empty
  sequence, whose join is the empty string, which splits into one empty string; and it fails
  when an occurrence of \<open>d\<close> begins inside an element and ends in the delimiter that follows
  it: the elements \<open>"a"\<close>, \<open>"a"\<close> joined with \<open>"aa"\<close> give \<open>"aaaa"\<close>, which splits into three
  empty strings.

  C4, amended: for every non-empty delimiter \<open>d\<close> and every non-empty sequence \<open>parts\<close> such
  that no occurrence of \<open>d\<close> begins inside an element that is not the last when \<open>d\<close> follows
  it, \<open>d\<close> does not occur in the last element, and the first element is not empty or is the
  only one, \<open>explode (implode parts d) d\<close> returns \<open>parts\<close>.
\<close>

theorem explode_implode_roundtrip:
  assumes "d \<noteq> []" and "cut_at_every d parts" and "hd parts \<noteq> [] \<or> tl parts = []"
  shows "explode (implode parts d) d = Some (Inr parts)"
proof -
  have "implode parts d = join_spec parts d"
    using assms(3) by (intro implode_join_spec) simp
  then show ?thesis
    using explode_loop_join [OF assms(1,2), of "[]" "[]"] by (simp add: explode_def)
qed

theorem explode_implode_roundtrip_witness:
  "'', '' \<noteq> [] \<and> cut_at_every '', '' [''a'', '''', ''b,c''] \<and>
   hd [''a'', '''', ''b,c''] \<noteq> [] \<and>
   explode (implode [''a'', '''', ''b,c''] '', '') '', '' = Some (Inr [''a'', '''', ''b,c''])"
proof -
  have 1: "'', '' \<noteq> []"
    by simp
  have 2: "cut_at_every '', '' [''a'', '''', ''b,c'']"
    by code_simp
  have 3: "hd [''a'', '''', ''b,c''] \<noteq> []"
    by simp
  then have 4: "hd [''a'', '''', ''b,c''] \<noteq> [] \<or> tl [''a'', '''', ''b,c''] = []"
    by simp
  show ?thesis
    using 1 2 3 explode_implode_roundtrip [OF 1 2 4] by blast
qed

theorem explode_implode_roundtrip_counterexample:
  "explode (implode [] '','') '','' = Some (Inr ['''']) \<and>
   explode (implode [] '','') '','' \<noteq> Some (Inr []) \<and>
   \<not> sublist ''aa'' ''a'' \<and>
   explode (implode [''a'', ''a''] ''aa'') ''aa'' = Some (Inr ['''', '''', '''']) \<and>
   explode (implode [''a'', ''a''] ''aa'') ''aa'' \<noteq> Some (Inr [''a'', ''a''])"
  by code_simp


section \<open>trim and strtolower\<close>

lemma dropWhile_id: "xs = [] \<or> \<not> P (hd xs) \<Longrightarrow> dropWhile P xs = xs"
  by (cases xs) auto

lemma ltrim_shape: "ltrim s = [] \<or> isgraph (hd (ltrim s))"
  unfolding ltrim_def using hd_dropWhile [of "\<lambda>c. \<not> isgraph c" s] by auto

lemma rtrim_shape: "rtrim s = [] \<or> isgraph (last (rtrim s))"
  unfolding rtrim_def using hd_dropWhile [of "\<lambda>c. \<not> isgraph c" "rev s"]
  by (auto simp: last_rev)

lemma ltrim_fix: "s = [] \<or> isgraph (hd s) \<Longrightarrow> ltrim s = s"
  unfolding ltrim_def by (rule dropWhile_id) auto

lemma rtrim_fix: "s = [] \<or> isgraph (last s) \<Longrightarrow> rtrim s = s"
proof -
  assume a: "s = [] \<or> isgraph (last s)"
  have "dropWhile (\<lambda>c. \<not> isgraph c) (rev s) = rev s"
    by (rule dropWhile_id) (use a in \<open>auto simp: hd_rev\<close>)
  then show ?thesis by (simp add: rtrim_def)
qed

lemma ltrim_last: "ltrim s \<noteq> [] \<Longrightarrow> last (ltrim s) = last s"
  unfolding ltrim_def
  by (metis append_Nil2 last_appendR takeWhile_dropWhile_id)

lemma trim_fix: "rtrim (trim s) = trim s \<and> ltrim (trim s) = trim s"
proof -
  let ?t = "rtrim s"
  have 1: "ltrim (trim s) = trim s"
    unfolding trim_def using ltrim_shape [of ?t] by (intro ltrim_fix)
  have "trim s = [] \<or> isgraph (last (trim s))"
  proof (cases "trim s = []")
    case False
    then have "last (trim s) = last ?t" unfolding trim_def by (rule ltrim_last)
    moreover have "?t \<noteq> []" using False by (auto simp: trim_def ltrim_def)
    ultimately show ?thesis using rtrim_shape [of s] by simp
  qed simp
  then have "rtrim (trim s) = trim s" by (rule rtrim_fix)
  with 1 show ?thesis by simp
qed

lemma tolower_idem: "tolower (tolower c) = tolower c"
proof (cases "(0x41::nat) \<le> of_char c \<and> of_char c \<le> (0x5A::nat)")
  case True
  then have "of_char (tolower c) = (of_char c + 0x20 :: nat)"
    by (simp add: tolower_def)
  with True show ?thesis by (simp add: tolower_def [of "tolower c"])
next
  case False
  then show ?thesis by (auto simp: tolower_def)
qed

text \<open>
  C7 (idempotence): for every string \<open>s\<close>, trimming a trimmed string changes nothing, and
  lower-casing a lower-cased string changes nothing.
\<close>

theorem trim_strtolower_idempotent:
  "trim (trim s) = trim s \<and> strtolower (strtolower s) = strtolower s"
proof
  show "trim (trim s) = trim s"
    using trim_fix [of s] by (simp add: trim_def [of "trim s"])
  show "strtolower (strtolower s) = strtolower s"
    by (simp add: strtolower_def tolower_idem)
qed


section \<open>repeat\<close>

lemma repeat_loop_eq:
  "i \<le>s n \<Longrightarrow> repeat_loop s n i result = result @ concat (replicate (nat (sint n - sint i)) s)"
proof (induction s n i result rule: repeat_loop.induct)
  case (1 s n i result)
  show ?case
  proof (cases "i <s n")
    case True
    have suc: "sint (i + 1) = sint i + 1" by (rule sint_succ [OF True])
    have le: "i + 1 \<le>s n" using True suc by (simp add: word_sle_eq word_sless_alt)
    have "nat (sint n - sint i) = Suc (nat (sint n - sint (i + 1)))"
      using True suc by (simp add: word_sless_alt)
    then show ?thesis
      using "1.IH" [OF True le] True by (simp add: replicate_app_Cons_same)
  next
    case False
    with "1.prems" have "sint n = sint i" by (simp add: word_sle_eq word_sless_alt)
    with False show ?thesis by simp
  qed
qed

lemma repeat_eq: "0 \<le>s n \<Longrightarrow> repeat s n = concat (replicate (nat (sint n)) s)"
  using repeat_loop_eq [of 0 n s "[]"] by (simp add: repeat_def)

text \<open>
  C9 (repeat): for every string \<open>s\<close> and every count \<open>n\<close> that is zero or negative,
  \<open>repeat s n\<close> is the empty string.
\<close>

theorem repeat_nonpositive: "n \<le>s 0 \<Longrightarrow> repeat s n = []"
  by (simp add: repeat_def word_sle_eq word_sless_alt)

theorem repeat_nonpositive_witness: "(- 3 :: 32 word) \<le>s 0 \<and> repeat ''ab'' (- 3) = []"
proof -
  have h: "(- 3 :: 32 word) \<le>s 0" by code_simp
  show ?thesis using h repeat_nonpositive [OF h, of "''ab''"] by simp
qed


section \<open>replace\<close>

lemma replaceAll_spec_none:
  "find_first d s = None \<Longrightarrow> replaceAll_spec d r s = s"
proof (induction s)
  case Nil
  show ?case by simp
next
  case (Cons c cs)
  then show ?case by (auto split: if_splits)
qed

lemma replaceAll_spec_found:
  "d \<noteq> [] \<Longrightarrow> find_first d s = Some i \<Longrightarrow>
     replaceAll_spec d r s = take i s @ r @ replaceAll_spec d r (drop (i + length d) s)"
proof (induction s arbitrary: i)
  case Nil
  then show ?case by simp
next
  case (Cons c cs)
  show ?case
  proof (cases "prefix d (c # cs)")
    case True
    with Cons.prems show ?thesis by simp
  next
    case False
    with Cons.prems obtain k where k: "find_first d cs = Some k" "i = Suc k" by auto
    from Cons.IH [OF Cons.prems(1) k(1)] False k(2) show ?thesis by simp
  qed
qed

lemma replace_loop_correct:
  assumes d: "search \<noteq> []"
  shows "search_pos \<le> length result \<Longrightarrow>
    replace_loop search repl result search_pos =
      Some (Inr (take search_pos result @ replaceAll_spec search repl (drop search_pos result)))"
proof (induction "length result - search_pos" arbitrary: result search_pos rule: less_induct)
  case less
  let ?t = "drop search_pos result"
  show ?case
  proof (cases "str_find result search search_pos")
    case None
    with less.prems have "find_first search ?t = None"
      by (simp add: str_find_def)
    with None show ?thesis
      by (subst replace_loop.simps) (simp add: replaceAll_spec_none)
  next
    case (Some offset)
    note f = str_find_Some [OF Some]
    let ?i = "offset - search_pos"
    let ?result' = "take offset result @ repl @ drop (offset + length search) result"
    let ?pos' = "offset + length repl"
    have off: "offset \<le> length result" using f(3) by simp
    have len: "length ?result' = length result - length search + length repl"
      using f(3) by simp
    have le': "?pos' \<le> length ?result'" using f(3) len by simp
    have smaller: "length ?result' - ?pos' < length result - search_pos"
      using f d len by (cases search) auto
    have tk: "take ?pos' ?result' = take offset result @ repl" using off by simp
    have dr: "drop ?pos' ?result' = drop (offset + length search) result" using off by simp
    have ih: "replace_loop search repl ?result' ?pos' =
        Some (Inr (take offset result @ repl @
          replaceAll_spec search repl (drop (offset + length search) result)))"
      using less.hyps [OF smaller le'] tk dr by simp
    have step: "replace_loop search repl result search_pos = replace_loop search repl ?result' ?pos'"
      using Some off by (subst replace_loop.simps) (simp add: str_replace_def)
    have t1: "take search_pos result @ take ?i ?t = take offset result"
      using f(2) by (metis add_diff_inverse_nat not_less take_add)
    have t2: "drop (?i + length search) ?t = drop (offset + length search) result"
      using f(2) by (simp add: add.commute)
    have "replaceAll_spec search repl ?t =
        take ?i ?t @ repl @ replaceAll_spec search repl (drop (?i + length search) ?t)"
      by (rule replaceAll_spec_found [OF d f(4)])
    then have "take search_pos result @ replaceAll_spec search repl ?t =
        take offset result @ repl @ replaceAll_spec search repl (drop (offset + length search) result)"
      using t1 t2 by (metis append.assoc)
    with step ih show ?thesis by simp
  qed
qed

lemma replace_correct: "replace search repl subject = Some (Inr (replaceAll_spec search repl subject))"
proof (cases "search = []")
  case True
  have "replaceAll_spec [] repl subject = subject" by (induction subject) auto
  with True show ?thesis by (simp add: replace_def)
next
  case False
  then show ?thesis
    using replace_loop_correct [OF False, of 0 subject repl] by (simp add: replace_def)
qed

lemma replace_round:
  assumes d: "search \<noteq> []" and f: "str_find result search search_pos = Some offset"
  shows "\<exists>result'. str_replace result offset (length search) repl = Inr result' \<and>
           take (offset + length repl) result' = take offset result @ repl \<and>
           length result' - (offset + length repl) < length result - search_pos"
proof -
  note s = str_find_Some [OF f]
  let ?result' = "take offset result @ repl @ drop (offset + length search) result"
  have off: "offset \<le> length result" using s(3) by simp
  have 1: "str_replace result offset (length search) repl = Inr ?result'"
    using off by (simp add: str_replace_def)
  have 2: "take (offset + length repl) ?result' = take offset result @ repl"
    using off by simp
  have 3: "length ?result' - (offset + length repl) < length result - search_pos"
    using s d by (cases search) auto
  from 1 2 3 show ?thesis by blast
qed

text \<open>
  C6 (replaceAll): for every search, replacement and subject, \<open>replace\<close> returns, without
  throwing, the subject in which every occurrence of the search string met from left to
  right without overlap is replaced, the inserted text not being scanned again; with an
  empty search string it returns the subject unchanged. In particular replacing \<open>"a"\<close> by
  \<open>"bb"\<close> in \<open>"banana"\<close> gives \<open>"bbbnbbnbb"\<close>, and replacing \<open>""\<close> by \<open>"x"\<close> in \<open>"abc"\<close>
  gives \<open>"abc"\<close>.
\<close>

theorem replace_every_occurrence:
  "replace search repl subject = Some (Inr (replaceAll_spec search repl subject)) \<and>
   replace [] repl subject = Some (Inr subject) \<and>
   replace ''a'' ''bb'' ''banana'' = Some (Inr ''bbbnbbnbb'') \<and>
   replace '''' ''x'' ''abc'' = Some (Inr ''abc'')"
proof (intro conjI)
  show "replace search repl subject = Some (Inr (replaceAll_spec search repl subject))"
    by (rule replace_correct)
  show "replace [] repl subject = Some (Inr subject)" by (simp add: replace_def)
  show "replace ''a'' ''bb'' ''banana'' = Some (Inr ''bbbnbbnbb'')" by code_simp
  show "replace '''' ''x'' ''abc'' = Some (Inr ''abc'')" by code_simp
qed

text \<open>
  C10 (termination of replaceAll): for every non-empty search string, \<open>replace\<close> returns
  on every subject and replacement, also when the replacement contains the search string.
  In every round the replacement is made, the next search starts just after the inserted
  replacement, and the text still to be searched is strictly shorter than it was at the
  beginning of the round.
\<close>

theorem replace_terminates:
  assumes "search \<noteq> []"
  shows "(\<exists>r. replace search repl subject = Some (Inr r)) \<and>
         (\<forall>result search_pos offset.
            str_find result search search_pos = Some offset \<longrightarrow>
            (\<exists>result'. str_replace result offset (length search) repl = Inr result' \<and>
               take (offset + length repl) result' = take offset result @ repl \<and>
               length result' - (offset + length repl) < length result - search_pos))"
proof
  show "\<exists>r. replace search repl subject = Some (Inr r)"
    using replace_loop_correct [OF assms, of 0 subject repl] assms by (simp add: replace_def)
  show "\<forall>result search_pos offset.
            str_find result search search_pos = Some offset \<longrightarrow>
            (\<exists>result'. str_replace result offset (length search) repl = Inr result' \<and>
               take (offset + length repl) result' = take offset result @ repl \<and>
               length result' - (offset + length repl) < length result - search_pos)"
    using replace_round [OF assms] by blast
qed

theorem replace_terminates_witness:
  "''a'' \<noteq> [] \<and> sublist ''a'' ''xax'' \<and>
   (\<exists>r. replace ''a'' ''xax'' ''banana'' = Some (Inr r)) \<and>
   str_find ''banana'' ''a'' 0 = Some 1 \<and>
   (\<exists>result'. str_replace ''banana'' 1 (length ''a'') ''xax'' = Inr result' \<and>
      take (1 + length ''xax'') result' = take 1 ''banana'' @ ''xax'' \<and>
      length result' - (1 + length ''xax'') < length ''banana'' - 0)"
proof -
  have h: "''a'' \<noteq> []" by simp
  have s: "sublist ''a'' ''xax''" by code_simp
  have f: "str_find ''banana'' ''a'' 0 = Some 1" by code_simp
  show ?thesis
    using h s f replace_terminates [OF h, of "''xax''" "''banana''"] by blast
qed


section \<open>parse_addr\<close>

lemma parse_addr_Inr:
  assumes "parse_addr P getaddrinfo addr = Inr a"
  shows "\<exists>r rest. getaddrinfo (c_str addr) (parse_addr_hints P) = (0, r # rest) \<and>
           (ai_family r = AF_INET P \<or> ai_family r = AF_INET6 P) \<and>
           ai_addrlen r \<le> length (ai_addr r) \<and> ai_addrlen r \<le> sizeof_sockaddr_storage P \<and>
           a = take (ai_addrlen r) (ai_addr r) @
               replicate (sizeof_sockaddr_storage P - ai_addrlen r) 0"
proof -
  obtain rc res where g: "getaddrinfo (c_str addr) (parse_addr_hints P) = (rc, res)"
    by (cases "getaddrinfo (c_str addr) (parse_addr_hints P)")
  from assms g have rc: "rc = 0"
    by (auto simp: parse_addr_def split: if_splits)
  from assms g rc obtain r rest where res: "res = r # rest"
    by (cases res) (auto simp: parse_addr_def)
  from assms g rc res have fam: "ai_family r = AF_INET P \<or> ai_family r = AF_INET6 P"
    by (auto simp: parse_addr_def split: if_splits)
  from assms g rc res fam
  have m: "memcpy (replicate (sizeof_sockaddr_storage P) 0) (ai_addr r) (ai_addrlen r) = Inr a"
    by (auto simp: parse_addr_def split: if_splits)
  then have "ai_addrlen r \<le> length (ai_addr r)" "ai_addrlen r \<le> sizeof_sockaddr_storage P"
    "a = take (ai_addrlen r) (ai_addr r) @ replicate (sizeof_sockaddr_storage P - ai_addrlen r) 0"
    by (auto simp: memcpy_def split: if_splits)
  with g rc res fam show ?thesis by blast
qed

lemma ss_family_copied:
  assumes "family_offset P + family_width P \<le> n" and "n \<le> length src"
  shows "ss_family P (take n src @ rest) = ss_family P src"
proof -
  let ?off = "family_offset P" and ?w = "family_width P"
  have 1: "drop ?off (take n src @ rest) = drop ?off (take n src) @ rest"
    using assms by simp
  have 2: "take ?w (drop ?off (take n src) @ rest) = take ?w (drop ?off (take n src))"
    using assms by simp
  have 3: "drop ?off (take n src) = take (n - ?off) (drop ?off src)"
    by (simp add: drop_take)
  have 4: "take ?w (take (n - ?off) (drop ?off src)) = take ?w (drop ?off src)"
    using assms by (simp add: min_absorb1)
  have "take ?w (drop ?off (take n src @ rest)) = take ?w (drop ?off (take n src) @ rest)"
    by (simp only: 1)
  also have "\<dots> = take ?w (drop ?off (take n src))"
    by (rule 2)
  also have "\<dots> = take ?w (drop ?off src)"
    by (simp only: 3 4)
  finally have "take ?w (drop ?off (take n src @ rest)) = take ?w (drop ?off src)" .
  then show ?thesis by (simp only: ss_family_def)
qed

text \<open>
  C1 (failure), as stated: on each failure the error carries the original input text. The
  code throws a \<open>std::runtime_error\<close> whose message is a fixed text: for \<open>"example.com"\<close>
  the message is \<open>"Could not parse the provided address."\<close>, in which the input does not
  occur.

  C1, amended: for every input string, if the resolution call returns a code other than 0,
  returns no result, or returns a first candidate whose family is neither \<open>AF_INET\<close> nor
  \<open>AF_INET6\<close>, then \<open>parse_addr\<close> fails with the single error \<open>std::runtime_error\<close> with
  the fixed message \<open>"Could not parse the provided address."\<close>, and returns no address.
\<close>

theorem parse_addr_failure:
  assumes "getaddrinfo (c_str addr) (parse_addr_hints P) = (rc, res)"
    and "rc \<noteq> 0 \<or> res = [] \<or> (ai_family (hd res) \<noteq> AF_INET P \<and> ai_family (hd res) \<noteq> AF_INET6 P)"
  shows "parse_addr P getaddrinfo addr = Inl (RuntimeError ''Could not parse the provided address.'')"
  using assms by (cases res) (auto simp: parse_addr_def)

theorem parse_addr_failure_witness:
  "numeric_only (c_str ''example.com'') (parse_addr_hints linux) = (- 2, []) \<and>
   (- 2 :: int) \<noteq> 0 \<and>
   parse_addr linux numeric_only ''example.com''
     = Inl (RuntimeError ''Could not parse the provided address.'')"
proof -
  have 1: "numeric_only (c_str ''example.com'') (parse_addr_hints linux) = (- 2, [])"
    by code_simp
  have 2: "(- 2 :: int) \<noteq> 0"
    by simp
  then have 3: "(- 2 :: int) \<noteq> 0 \<or> ([] :: addrinfo list) = [] \<or>
      (ai_family (hd []) \<noteq> AF_INET linux \<and> ai_family (hd []) \<noteq> AF_INET6 linux)"
    by simp
  show ?thesis
    using 1 2
      parse_addr_failure [where getaddrinfo = numeric_only and addr = "''example.com''"
        and P = linux, OF 1 3]
    by blast
qed

theorem parse_addr_failure_counterexample:
  "parse_addr linux numeric_only ''example.com'' = Inl (RuntimeError ''Could not parse the provided address.'') \<and>
   parse_addr linux numeric_only ''example.com'' \<noteq> Inl (RuntimeError ''example.com'') \<and>
   \<not> sublist ''example.com'' ''Could not parse the provided address.''"
  by code_simp

text \<open>
  C2 (success): for every input string on which \<open>parse_addr\<close> returns an address, the
  resolution service answered 0 with a first candidate; the family field of the returned
  address is \<open>AF_INET\<close> or \<open>AF_INET6\<close> and is the family reported for that candidate; and the
  first \<open>ai_addrlen\<close> bytes of the returned address are the bytes of the candidate's socket
  address, the rest of the \<open>sockaddr_storage\<close> being zero. The resolution service is taken
  to keep its contract: the socket address of a candidate carries the candidate's family in
  its family field, and that field lies within its \<open>ai_addrlen\<close> bytes.
\<close>

theorem parse_addr_success:
  assumes ok: "parse_addr P getaddrinfo addr = Inr a"
    and contract: "\<forall>r \<in> set (snd (getaddrinfo (c_str addr) (parse_addr_hints P))).
        ss_family P (ai_addr r) = ai_family r \<and> family_offset P + family_width P \<le> ai_addrlen r"
  shows "\<exists>r rest. getaddrinfo (c_str addr) (parse_addr_hints P) = (0, r # rest) \<and>
           (ss_family P a = AF_INET P \<or> ss_family P a = AF_INET6 P) \<and>
           ss_family P a = ai_family r \<and>
           length a = sizeof_sockaddr_storage P \<and>
           take (ai_addrlen r) a = take (ai_addrlen r) (ai_addr r) \<and>
           ai_addrlen r \<le> length (ai_addr r) \<and>
           drop (ai_addrlen r) a = replicate (sizeof_sockaddr_storage P - ai_addrlen r) 0"
proof -
  from parse_addr_Inr [OF ok] obtain r rest
    where g: "getaddrinfo (c_str addr) (parse_addr_hints P) = (0, r # rest)"
      and fam: "ai_family r = AF_INET P \<or> ai_family r = AF_INET6 P"
      and le: "ai_addrlen r \<le> length (ai_addr r)" "ai_addrlen r \<le> sizeof_sockaddr_storage P"
      and a: "a = take (ai_addrlen r) (ai_addr r) @
               replicate (sizeof_sockaddr_storage P - ai_addrlen r) 0"
    by blast
  from contract g have c: "ss_family P (ai_addr r) = ai_family r"
    "family_offset P + family_width P \<le> ai_addrlen r" by auto
  have sf: "ss_family P a = ai_family r"
    unfolding a using ss_family_copied [OF c(2) le(1)] c(1) by simp
  have len: "length a = sizeof_sockaddr_storage P" unfolding a using le by simp
  have tk: "take (ai_addrlen r) a = take (ai_addrlen r) (ai_addr r)" unfolding a using le by simp
  have dr: "drop (ai_addrlen r) a = replicate (sizeof_sockaddr_storage P - ai_addrlen r) 0"
    unfolding a using le by simp
  from g fam sf len tk le(1) dr show ?thesis by auto
qed

theorem parse_addr_success_witness:
  "parse_addr linux numeric_only ''127.0.0.1''
     = Inr ([2, 0, 0, 0, 127, 0, 0, 1] @ replicate 120 (0::byte)) \<and>
   list_all (\<lambda>r. ss_family linux (ai_addr r) = ai_family r \<and>
               family_offset linux + family_width linux \<le> ai_addrlen r)
     (snd (numeric_only (c_str ''127.0.0.1'') (parse_addr_hints linux))) \<and>
   (\<exists>r rest. numeric_only (c_str ''127.0.0.1'') (parse_addr_hints linux) = (0, r # rest) \<and>
      ss_family linux ([2, 0, 0, 0, 127, 0, 0, 1] @ replicate 120 (0::byte)) = ai_family r \<and>
      take (ai_addrlen r) ([2, 0, 0, 0, 127, 0, 0, 1] @ replicate 120 (0::byte))
        = take (ai_addrlen r) (ai_addr r) \<and>
      drop (ai_addrlen r) ([2, 0, 0, 0, 127, 0, 0, 1] @ replicate 120 (0::byte))
        = replicate (sizeof_sockaddr_storage linux - ai_addrlen r) 0)"
proof -
  have 1: "parse_addr linux numeric_only ''127.0.0.1''
      = Inr ([2, 0, 0, 0, 127, 0, 0, 1] @ replicate 120 (0::byte))"
    by code_simp
  have 2: "list_all (\<lambda>r. ss_family linux (ai_addr r) = ai_family r \<and>
               family_offset linux + family_width linux \<le> ai_addrlen r)
     (snd (numeric_only (c_str ''127.0.0.1'') (parse_addr_hints linux)))"
    by code_simp
  then have 3: "\<forall>r \<in> set (snd (numeric_only (c_str ''127.0.0.1'') (parse_addr_hints linux))).
      ss_family linux (ai_addr r) = ai_family r \<and>
      family_offset linux + family_width linux \<le> ai_addrlen r"
    by (simp only: list_all_iff)
  show ?thesis
    using 1 2 parse_addr_success [OF 1 3] by blast
qed

end
